theory Spec2Isabelle
  imports Complex_Main "HOL-Library.Multiset"
begin

section \<open>The Fisher-Yates shuffle (\<open>_shuffle.ts\<close>)\<close>

text \<open>
  \<open>randomInt(minInclusive, maxExclusive)\<close> multiplies the value of \<open>Math.random()\<close>
  by the width of the interval, adds the lower bound and takes the floor. The value of
  \<open>Math.random()\<close> is the first argument \<open>r\<close> of the model.
\<close>

definition randomInt :: "real \<Rightarrow> int \<Rightarrow> int \<Rightarrow> int" where
  "randomInt r minInclusive maxExclusive =
     (let f = r * of_int (maxExclusive - minInclusive) + of_int minInclusive
      in \<lfloor>f\<rfloor>)"

text \<open>
  The three assignments of the loop body: \<open>ofI = array[i]; array[i] = array[j]; array[j] = ofI\<close>.
  The model is the array of JavaScript as long as \<open>i\<close> and \<open>j\<close> are inside it, which the
  draws of \<open>Math.random()\<close>, all in \<open>[0, 1)\<close>, ensure.
\<close>

definition swap_elems :: "nat \<Rightarrow> nat \<Rightarrow> 'a list \<Rightarrow> 'a list" where
  "swap_elems i j array = (let ofI = array ! i in (array[i := array ! j])[j := ofI])"

text \<open>
  \<open>shuffle\<close> runs \<open>i\<close> from 1 to \<open>array.length - 1\<close>; the \<open>i\<close>-th pass is the \<open>i\<close>-th call
  of \<open>Math.random()\<close>, whose value is \<open>rs ! (i - 1)\<close>.
\<close>

definition shuffle_pass :: "real list \<Rightarrow> nat \<Rightarrow> 'a list \<Rightarrow> 'a list" where
  "shuffle_pass rs i array =
     (let j = nat (randomInt (rs ! (i - 1)) 0 (int i + 1)) in swap_elems i j array)"

definition shuffle :: "real list \<Rightarrow> 'a list \<Rightarrow> 'a list" where
  "shuffle rs array = fold (shuffle_pass rs) [1..<length array] array"

text \<open>The values \<open>Math.random()\<close> may return: one per pass, each in \<open>[0, 1)\<close>.\<close>

definition valid_draws :: "real list \<Rightarrow> nat \<Rightarrow> bool" where
  "valid_draws rs n \<longleftrightarrow> length rs = n - 1 \<and> (\<forall>r \<in> set rs. 0 \<le> r \<and> r < 1)"

text \<open>The index drawn in pass \<open>i\<close>, and the tuple of all drawn indices.\<close>

definition drawn_index :: "real list \<Rightarrow> nat \<Rightarrow> nat" where
  "drawn_index rs i = nat (randomInt (rs ! (i - 1)) 0 (int i + 1))"

definition drawn_indices :: "real list \<Rightarrow> nat \<Rightarrow> nat list" where
  "drawn_indices rs n = map (drawn_index rs) [1..<n]"

text \<open>The same loop with the drawn indices given: pass \<open>i\<close> swaps \<open>i\<close> with \<open>js ! (i - 1)\<close>.\<close>

definition shuffle_with :: "nat list \<Rightarrow> 'a list \<Rightarrow> 'a list" where
  "shuffle_with js array = fold (\<lambda>i a. swap_elems i (js ! (i - 1)) a) [1..<length array] array"

text \<open>The tuples \<open>(j\<^sub>1, ..., j\<^sub>n\<^sub>-\<^sub>1)\<close> with \<open>j\<^sub>i \<le> i\<close>.\<close>

definition index_tuples :: "nat \<Rightarrow> nat list set" where
  "index_tuples n = {js. length js = n - 1 \<and> (\<forall>k < n - 1. js ! k \<le> Suc k)}"


section \<open>Promises, as far as \<open>select\<close> uses them\<close>

type_synonym name = string

text \<open>Objects that are told apart by identity: a Selectable, an AbortSignal.\<close>

type_synonym sid = nat
type_synonym signal = nat

datatype ('a, 'e) settled = Fulfilled 'a | Rejected 'e

text \<open>
  A promise is described by how it ends: \<open>fate\<close> is its settlement, or \<open>None\<close> when it never
  settles. \<open>hops\<close> counts the promise reactions (\<open>then\<close>, \<open>catch\<close>) that run between the
  settlement of the promise an operation started from and the settlement of this one.
\<close>

datatype ('a, 'e) promise = Promise (hops: nat) (fate: "('a, 'e) settled option")

text \<open>
  \<open>p.then(onFulfilled, onRejected)\<close>: one reaction later the new promise settles with what
  the handler for the settlement of \<open>p\<close> returns (\<open>Fulfilled\<close>) or throws (\<open>Rejected\<close>).
  \<open>p.catch(onRejected)\<close> is \<open>p.then(undefined, onRejected)\<close>: a fulfilment passes through.
\<close>

definition then_p ::
  "('a \<Rightarrow> ('b, 'f) settled) \<Rightarrow> ('e \<Rightarrow> ('b, 'f) settled) \<Rightarrow> ('a, 'e) promise \<Rightarrow> ('b, 'f) promise" where
  "then_p onFulfilled onRejected p =
     Promise (Suc (hops p))
       (case fate p of
          None \<Rightarrow> None
        | Some (Fulfilled v) \<Rightarrow> Some (onFulfilled v)
        | Some (Rejected e) \<Rightarrow> Some (onRejected e))"

definition catch_p :: "('e \<Rightarrow> ('a, 'f) settled) \<Rightarrow> ('a, 'e) promise \<Rightarrow> ('a, 'f) promise" where
  "catch_p onRejected p = then_p Fulfilled onRejected p"

text \<open>A call of code of the caller that returns a promise, or throws before returning one.\<close>

datatype ('a, 'e) call_result = Throws 'e | Returns "('a, 'e) promise"

section \<open>\<open>select\<close> (\<open>select.ts\<close>)\<close>

text \<open>
  What \<open>select\<close> can throw: an error of an operation as it was thrown (\<open>Plain\<close>), the same
  wrapped by \<open>new SelectError(argName, cause)\<close>, the \<open>Error\<close> for a call without any non-null
  operation, and the \<open>TypeError\<close> of reading \<open>.type\<close> of \<open>undefined\<close>.
\<close>

datatype 'e thrown =
    Plain 'e
  | SelectError name 'e
  | NoOperationsError
  | TypeError

text \<open>\<open>WaitResult\<close>: \<open>{type: 'promise', name, value}\<close> or \<open>{type: 'selectable', name, index, self}\<close>.\<close>

datatype 'v wait_result =
    PromiseResult name 'v
  | SelectableResult name nat sid

text \<open>\<open>SelectOp\<close>; a \<open>NullableSelectOp\<close> is an \<open>option\<close> of it, \<open>None\<close> for \<open>null\<close>.\<close>

datatype ('v, 'e) select_op =
    SelectableOp sid
  | PromiseOp "('v, 'e) promise"
  | FunctionOp "signal \<Rightarrow> ('v, 'e) call_result"

text \<open>\<open>SelectableAttemptResult\<close>, or the exception \<open>attempt()\<close> throws.\<close>

datatype ('v, 'e) attempt_result = AttemptThrows 'e | Ok 'v | NotOk

text \<open>
  The Selectables of a run. The \<open>k\<close>-th call of \<open>wait\<close> on Selectable \<open>s\<close> throws, or returns a
  promise that resolves with the value passed to \<open>wait\<close>, rejects, or never settles; the
  \<open>k\<close>-th call of \<open>attempt\<close> returns or throws.
\<close>

record ('v, 'e) selectables =
  wait_behaviour :: "sid \<Rightarrow> nat \<Rightarrow> (unit, 'e) call_result"
  attempt_behaviour :: "sid \<Rightarrow> nat \<Rightarrow> ('v, 'e) attempt_result"

text \<open>The calls \<open>select\<close> makes, in order.\<close>

datatype 'v event =
    CalledFunction name signal
  | CalledWait sid "'v wait_result" signal
  | CalledAttempt sid
  | Aborted signal

fun is_wait_of :: "sid \<Rightarrow> 'v event \<Rightarrow> bool" where
  "is_wait_of s (CalledWait s' _ _) = (s = s')"
| "is_wait_of s _ = False"

fun is_attempt_of :: "sid \<Rightarrow> 'v event \<Rightarrow> bool" where
  "is_attempt_of s (CalledAttempt s') = (s = s')"
| "is_attempt_of s _ = False"

definition waits_so_far :: "sid \<Rightarrow> 'v event list \<Rightarrow> nat" where
  "waits_so_far s tr = length (filter (is_wait_of s) tr)"

definition attempts_so_far :: "sid \<Rightarrow> 'v event list \<Rightarrow> nat" where
  "attempts_so_far s tr = length (filter (is_attempt_of s) tr)"

text \<open>\<open>self.wait(value, signal)\<close>: the promise, when one is returned, resolves with \<open>value\<close>.\<close>

definition call_wait ::
  "('v, 'e) selectables \<Rightarrow> 'v event list \<Rightarrow> sid \<Rightarrow> 'r \<Rightarrow> ('r, 'e) call_result" where
  "call_wait env tr self v =
     (case wait_behaviour env self (waits_so_far self tr) of
        Throws e \<Rightarrow> Throws e
      | Returns p \<Rightarrow>
          Returns (Promise (hops p)
            (case fate p of
               None \<Rightarrow> None
             | Some (Fulfilled _) \<Rightarrow> Some (Fulfilled v)
             | Some (Rejected e) \<Rightarrow> Some (Rejected e))))"

text \<open>A promise raced as it is: its rejection reaches \<open>select\<close> unwrapped.\<close>

definition unwrapped :: "('a, 'e) promise \<Rightarrow> ('a, 'e thrown) promise" where
  "unwrapped p =
     Promise (hops p)
       (case fate p of
          None \<Rightarrow> None
        | Some (Fulfilled v) \<Rightarrow> Some (Fulfilled v)
        | Some (Rejected e) \<Rightarrow> Some (Rejected (Plain e)))"

text \<open>
  \<open>waitForOp(op, name, index, signal)\<close>. The result is the trace with the call made, and
  the promise for the race or the exception of a call that threw.
\<close>

definition waitForOp ::
  "('v, 'e) selectables \<Rightarrow> 'v event list \<Rightarrow> ('v, 'e) select_op \<Rightarrow> name \<Rightarrow> nat \<Rightarrow> signal
     \<Rightarrow> 'v event list \<times> ('e thrown + ('v wait_result, 'e thrown) promise)" where
  "waitForOp env tr op name index signal =
     (case op of
        PromiseOp p \<Rightarrow>
          (tr, Inr (then_p (\<lambda>value. Fulfilled (PromiseResult name value))
                           (\<lambda>error. Rejected (SelectError name error)) p))
      | FunctionOp f \<Rightarrow>
          (tr @ [CalledFunction name signal],
           case f signal of
             Throws e \<Rightarrow> Inl (Plain e)
           | Returns p \<Rightarrow>
               Inr (then_p (\<lambda>value. Fulfilled (PromiseResult name value))
                           (\<lambda>error. Rejected (SelectError name error)) p))
      | SelectableOp self \<Rightarrow>
          (let v = SelectableResult name index self
           in (tr @ [CalledWait self v signal],
               case call_wait env tr self v of
                 Throws e \<Rightarrow> Inl (Plain e)
               | Returns p \<Rightarrow> Inr (catch_p (\<lambda>error. Rejected (SelectError name error)) p))))"

text \<open>An element of a JavaScript array, or an empty slot of it.\<close>

datatype 'a slot = Hole | Slot 'a

text \<open>\<open>array[i] = v\<close>: beyond the end the array grows, leaving empty slots.\<close>

definition array_assign :: "'a slot list \<Rightarrow> nat \<Rightarrow> 'a \<Rightarrow> 'a slot list" where
  "array_assign array i v =
     (if i < length array then array[i := Slot v]
      else array @ replicate (i - length array) Hole @ [Slot v])"

record ('v, 'e) select_state =
  promises :: "('v wait_result, 'e thrown) promise slot list"
  trace :: "'v event list"

definition initial_state :: "('v, 'e) select_state" where
  "initial_state = \<lparr>promises = [], trace = []\<rparr>"

text \<open>
  \<open>nameAndOp.forEach(([name, op], index) => ...)\<close>: a null operation is skipped, any other
  is started and its promise pushed. An exception of \<open>waitForOp\<close> ends the loop.
\<close>

fun start_ops ::
  "('v, 'e) selectables \<Rightarrow> signal \<Rightarrow> (name \<times> ('v, 'e) select_op option) list \<Rightarrow> nat
     \<Rightarrow> ('v, 'e) select_state \<Rightarrow> ('e thrown \<times> ('v, 'e) select_state) + ('v, 'e) select_state" where
  "start_ops env c [] index st = Inr st"
| "start_ops env c ((name, None) # rest) index st = start_ops env c rest (Suc index) st"
| "start_ops env c ((name, Some op) # rest) index st =
     (case waitForOp env (trace st) op name index c of
        (tr, Inl err) \<Rightarrow> Inl (err, st\<lparr>trace := tr\<rparr>)
      | (tr, Inr p) \<Rightarrow>
          start_ops env c rest (Suc index) (st\<lparr>promises := promises st @ [Slot p], trace := tr\<rparr>))"

text \<open>
  \<open>await Promise.race(promises)\<close> settles as one settled element of the array does. Which
  one is the host's choice: \<open>k\<close> is the slot the race observes first. An empty slot counts
  as a promise resolved with \<open>undefined\<close> (\<open>None\<close>); a slot whose promise never settles, or
  no slot, leaves the race pending (\<open>None\<close> outside).
\<close>

definition race ::
  "('a, 'e) promise slot list \<Rightarrow> nat \<Rightarrow> ('a option, 'e) settled option" where
  "race ps k =
     (if k < length ps then
        (case ps ! k of
           Hole \<Rightarrow> Some (Fulfilled None)
         | Slot p \<Rightarrow>
             (case fate p of
                None \<Rightarrow> None
              | Some (Fulfilled v) \<Rightarrow> Some (Fulfilled (Some v))
              | Some (Rejected e) \<Rightarrow> Some (Rejected e)))
      else None)"

text \<open>How a call of \<open>select\<close> ends: its promise resolves, rejects, or is still pending.\<close>

datatype ('v, 'e) outcome =
    Resolves name 'v
  | RejectsWith "'e thrown"
  | StaysPending

text \<open>
  The \<open>while (true)\<close> loop inside \<open>try\<close>. The schedule names the winner of each race in
  turn; when it is used up the call is waiting in \<open>await Promise.race(promises)\<close>.
\<close>

fun race_loop ::
  "('v, 'e) selectables \<Rightarrow> signal \<Rightarrow> nat list \<Rightarrow> ('v, 'e) select_state
     \<Rightarrow> ('v, 'e) select_state \<times> ('v, 'e) outcome" where
  "race_loop env c [] st = (st, StaysPending)"
| "race_loop env c (k # schedule) st =
     (case race (promises st) k of
        None \<Rightarrow> (st, StaysPending)
      | Some (Rejected err) \<Rightarrow> (st, RejectsWith err)
      | Some (Fulfilled None) \<Rightarrow> (st, RejectsWith TypeError)
      | Some (Fulfilled (Some (PromiseResult name v))) \<Rightarrow> (st, Resolves name v)
      | Some (Fulfilled (Some (SelectableResult name index self))) \<Rightarrow>
          (let st1 = st\<lparr>trace := trace st @ [CalledAttempt self]\<rparr>
           in case attempt_behaviour env self (attempts_so_far self (trace st)) of
                AttemptThrows exception \<Rightarrow> (st1, RejectsWith (SelectError name exception))
              | Ok v \<Rightarrow> (st1, Resolves name v)
              | NotOk \<Rightarrow>
                  (let winner = SelectableResult name index self;
                       st2 = st1\<lparr>trace := trace st1 @ [CalledWait self winner c]\<rparr>
                   in case call_wait env (trace st1) self winner of
                        Throws e \<Rightarrow> (st2, RejectsWith (Plain e))
                      | Returns p \<Rightarrow>
                          race_loop env c schedule
                            (st2\<lparr>promises := array_assign (promises st2) index (unwrapped p)\<rparr>))))"

text \<open>\<open>finally { c.abort() }\<close>: runs when the \<open>try\<close> block is left, not while it waits.\<close>

definition finally_abort ::
  "signal \<Rightarrow> ('v, 'e) select_state \<times> ('v, 'e) outcome \<Rightarrow> ('v, 'e) select_state \<times> ('v, 'e) outcome" where
  "finally_abort c r =
     (case r of
        (st, StaysPending) \<Rightarrow> (st, StaysPending)
      | (st, out) \<Rightarrow> (st\<lparr>trace := trace st @ [Aborted c]\<rparr>, out))"

text \<open>
  \<open>select(ops)\<close>. \<open>ops\<close> is \<open>Object.entries(ops)\<close>, \<open>c\<close> the signal of the new
  \<open>AbortController\<close>, \<open>rs\<close> the values of \<open>Math.random()\<close> for the shuffle, \<open>schedule\<close> the
  winners of the races. The result is the final state with the outcome of the call.
\<close>

definition select ::
  "('v, 'e) selectables \<Rightarrow> signal \<Rightarrow> real list \<Rightarrow> nat list
     \<Rightarrow> (name \<times> ('v, 'e) select_op option) list
     \<Rightarrow> ('v, 'e) select_state \<times> ('v, 'e) outcome" where
  "select env c rs schedule ops =
     (let nameAndOp = shuffle rs ops
      in case start_ops env c nameAndOp 0 initial_state of
           Inl (err, st) \<Rightarrow> (st, RejectsWith err)
         | Inr st \<Rightarrow>
             if length (promises st) = 0 then (st, RejectsWith NoOperationsError)
             else finally_abort c (race_loop env c schedule st))"

section \<open>Notions used to state and prove the properties of \<open>select\<close>\<close>

text \<open>An event that is not an abort, and whose call, when it takes a signal, was given \<open>c\<close>.\<close>

fun passes :: "signal \<Rightarrow> 'v event \<Rightarrow> bool" where
  "passes c (CalledFunction _ s) = (s = c)"
| "passes c (CalledWait _ _ s) = (s = c)"
| "passes c (CalledAttempt _) = True"
| "passes c (Aborted _) = False"

text \<open>
  A wait result that belongs to an entry of the caller's map: a value of the promise or of
  the abortable function listed under that name, or the Selectable listed under it.
\<close>

fun result_of_ops ::
  "signal \<Rightarrow> (name \<times> ('v, 'e) select_op option) list \<Rightarrow> 'v wait_result \<Rightarrow> bool" where
  "result_of_ops c ops (PromiseResult name v) =
     ((\<exists>p. (name, Some (PromiseOp p)) \<in> set ops \<and> fate p = Some (Fulfilled v))
      \<or> (\<exists>f p. (name, Some (FunctionOp f)) \<in> set ops \<and> f c = Returns p
                \<and> fate p = Some (Fulfilled v)))"
| "result_of_ops c ops (SelectableResult name index self) =
     ((name, Some (SelectableOp self)) \<in> set ops)"

definition slots_of_ops ::
  "signal \<Rightarrow> (name \<times> ('v, 'e) select_op option) list
     \<Rightarrow> ('v wait_result, 'e thrown) promise slot list \<Rightarrow> bool" where
  "slots_of_ops c ops ps \<longleftrightarrow>
     (\<forall>p r. Slot p \<in> set ps \<and> fate p = Some (Fulfilled r) \<longrightarrow> result_of_ops c ops r)"

section \<open>Concrete runs\<close>

text \<open>
  Selectables for concrete runs, with values in \<open>nat\<close> and errors in \<open>string\<close>.
  \<open>stolen_selectables\<close>: the first \<open>wait\<close> of Selectable 0 resolves, every other \<open>wait\<close>
  stays pending, every \<open>attempt\<close> returns \<open>{ok: false}\<close>.
  \<open>closing_selectables\<close>: the first \<open>wait\<close> resolves and the first \<open>attempt\<close> returns
  \<open>{ok: false}\<close>; every later \<open>wait\<close> rejects with \<open>closed\<close>.
  \<open>ready_selectables\<close>: every \<open>wait\<close> resolves and every \<open>attempt\<close> returns
  \<open>{ok: true, value: 42}\<close>.
\<close>

definition stolen_selectables :: "(nat, string) selectables" where
  "stolen_selectables =
     \<lparr>wait_behaviour = (\<lambda>s k. if s = 0 \<and> k = 0 then Returns (Promise 0 (Some (Fulfilled ())))
                               else Returns (Promise 0 None)),
      attempt_behaviour = (\<lambda>s k. NotOk)\<rparr>"

definition closing_selectables :: "(nat, string) selectables" where
  "closing_selectables =
     \<lparr>wait_behaviour = (\<lambda>s k. if k = 0 then Returns (Promise 0 (Some (Fulfilled ())))
                               else Returns (Promise 0 (Some (Rejected ''closed'')))),
      attempt_behaviour = (\<lambda>s k. NotOk)\<rparr>"

definition ready_selectables :: "(nat, string) selectables" where
  "ready_selectables =
     \<lparr>wait_behaviour = (\<lambda>s k. Returns (Promise 0 (Some (Fulfilled ())))),
      attempt_behaviour = (\<lambda>s k. Ok 42)\<rparr>"

section \<open>Channels\<close>

text \<open>
  \<open>Channel.ts\<close> is not among the sources; only the interfaces of \<open>channel-api.ts\<close> are.
  The channel below follows the specification (sections 3 and 4.1). Suspended callers
  are named by the number of their resolver.
\<close>

datatype channel_error = CannotWriteIntoClosed

record 'a channel =
  capacity :: nat
  buffer :: "'a list"
  closed :: bool
  pendingWrites :: "('a \<times> nat) list"
  pendingReads :: "nat list"
  readableWaiters :: "nat list"
  writableWaiters :: "nat list"

text \<open>Resolutions of other callers that an operation causes.\<close>

datatype 'a wake =
    ReaderReceives nat 'a
  | WriterResolves nat
  | ReadableResolves nat

datatype write_result = WriteResolves | WriteSuspends | WriteFails channel_error

datatype 'a read_result = ReadReturns 'a | ReadReturnsAbsent | ReadSuspends

text \<open>
  Modelled from the spec: the constructor of \<open>Channel\<close>, which is not among the sources.
  A channel is created with a capacity, open, with nothing buffered and nobody waiting.
\<close>

definition new_channel :: "nat \<Rightarrow> 'a channel" where
  "new_channel cap =
     \<lparr>capacity = cap, buffer = [], closed = False, pendingWrites = [], pendingReads = [],
      readableWaiters = [], writableWaiters = []\<rparr>"

text \<open>
  Modelled from the spec: \<open>Channel.write\<close>, which is not among the sources. A write into a
  closed channel fails with CannotWriteIntoClosed. Otherwise, if a reader is already
  waiting the value is handed to that reader and the write resolves; else if
  \<open>buffer.size < capacity\<close> the value is appended and the write resolves; else the writer
  is enqueued in \<open>pendingWrites\<close> with the value. A resolved write notifies the
  \<open>readableWaiters\<close> when the channel now has a value.
\<close>

definition channel_write :: "'a \<Rightarrow> nat \<Rightarrow> 'a channel \<Rightarrow> 'a channel \<times> write_result \<times> 'a wake list" where
  "channel_write v w ch =
     (if closed ch then (ch, WriteFails CannotWriteIntoClosed, [])
      else case pendingReads ch of
             r # rs \<Rightarrow> (ch\<lparr>pendingReads := rs\<rparr>, WriteResolves, [ReaderReceives r v])
           | [] \<Rightarrow>
               if length (buffer ch) < capacity ch
               then (ch\<lparr>buffer := buffer ch @ [v], readableWaiters := []\<rparr>, WriteResolves,
                     map ReadableResolves (readableWaiters ch))
               else (ch\<lparr>pendingWrites := pendingWrites ch @ [(v, w)]\<rparr>, WriteSuspends, []))"

text \<open>
  Modelled from the spec: the first step of \<open>Channel.read\<close>. If \<open>pendingWrites\<close> is
  non-empty and the buffer has a free slot, the head writer is admitted into the buffer
  before the read dequeues.
\<close>

definition admit_writer :: "'a channel \<Rightarrow> 'a channel \<times> 'a wake list" where
  "admit_writer ch =
     (case pendingWrites ch of
        (v, w) # ws \<Rightarrow>
          if length (buffer ch) < capacity ch
          then (ch\<lparr>buffer := buffer ch @ [v], pendingWrites := ws\<rparr>, [WriterResolves w])
          else (ch, [])
      | [] \<Rightarrow> (ch, []))"

text \<open>
  Modelled from the spec: \<open>Channel.read\<close>, which is not among the sources. After the
  first step the reader takes the head of the buffer, or, in the unbuffered case, the
  value of the head writer, which resolves. With no value, a closed channel gives the
  absent marker, and an open one suspends the reader in \<open>pendingReads\<close>.
\<close>

definition channel_read :: "nat \<Rightarrow> 'a channel \<Rightarrow> 'a channel \<times> 'a read_result \<times> 'a wake list" where
  "channel_read r ch =
     (case admit_writer ch of
        (ch1, woken) \<Rightarrow>
          (case buffer ch1 of
             x # xs \<Rightarrow> (ch1\<lparr>buffer := xs\<rparr>, ReadReturns x, woken)
           | [] \<Rightarrow>
               (case pendingWrites ch1 of
                  (v, w) # ws \<Rightarrow>
                    if capacity ch1 = 0
                    then (ch1\<lparr>pendingWrites := ws\<rparr>, ReadReturns v, woken @ [WriterResolves w])
                    else (ch1\<lparr>pendingReads := pendingReads ch1 @ [r]\<rparr>, ReadSuspends, woken)
                | [] \<Rightarrow>
                    if closed ch1 then (ch1, ReadReturnsAbsent, woken)
                    else (ch1\<lparr>pendingReads := pendingReads ch1 @ [r]\<rparr>, ReadSuspends, woken))))"

text \<open>An open channel with nothing buffered and no caller suspended.\<close>

definition empty_channel :: "'a channel \<Rightarrow> bool" where
  "empty_channel ch \<longleftrightarrow>
     \<not> closed ch \<and> buffer ch = [] \<and> pendingWrites ch = [] \<and> pendingReads ch = []"

section \<open>\<open>sleep\<close> (\<open>select-helpers.ts\<close>)\<close>

text \<open>
  The host: a clock in milliseconds and the timers of \<open>setTimeout\<close>, each with its
  handle, the time it is due and its callback. The callback of \<open>sleep\<close> is the closure
  \<open>() => resolve(value)\<close>, the teardown it returns the closure \<open>() => clearTimeout(handle)\<close>.
\<close>

datatype 'v callback = ResolveWith 'v

datatype teardown = ClearTimeout nat

datatype sleep_error = AbortedError

datatype 'v sleep_promise = Pending | ResolvedWith 'v | RejectedWith sleep_error

text \<open>
  One call of \<open>sleep\<close> with a signal: the host, the signal, the promise the call
  returned, and the abort listener with the teardown it will run, while it is installed.
  \<open>teardown_runs\<close> and \<open>callback_runs\<close> count the calls of the two closures.
\<close>

record 'v world =
  now :: nat
  next_handle :: nat
  timers :: "(nat \<times> nat \<times> 'v callback) list"
  signal_aborted :: bool
  abort_listener :: "teardown option"
  settled :: "'v sleep_promise"
  teardown_runs :: nat
  callback_runs :: nat


















section \<open>Properties of the shuffle\<close>


lemma randomInt_bounds:
  assumes "0 \<le> r" "r < 1"
  shows "0 \<le> randomInt r 0 (int i + 1) \<and> randomInt r 0 (int i + 1) \<le> int i"
proof -
  have a: "0 \<le> r * (real i + 1)" using assms by simp
  have "r * (real i + 1) < 1 * (real i + 1)" using assms by (intro mult_strict_right_mono) auto
  then have b: "r * (real i + 1) < real i + 1" by simp
  have "\<lfloor>r * (real i + 1)\<rfloor> \<le> int i" using b by (simp add: floor_le_iff)
  moreover have "0 \<le> \<lfloor>r * (real i + 1)\<rfloor>" using a by simp
  ultimately show ?thesis by (simp add: randomInt_def)
qed

lemma drawn_index_le:
  assumes "valid_draws rs n" "1 \<le> i" "i < n"
  shows "drawn_index rs i \<le> i"
proof -
  have "rs ! (i - 1) \<in> set rs" using assms by (simp add: valid_draws_def)
  then have "0 \<le> rs ! (i - 1) \<and> rs ! (i - 1) < 1" using assms by (simp add: valid_draws_def)
  then have "randomInt (rs ! (i - 1)) 0 (int i + 1) \<le> int i"
    using randomInt_bounds[of "rs ! (i - 1)" i] by simp
  then show ?thesis unfolding drawn_index_def by linarith
qed

lemma mset_swap_elems: "i < length a \<Longrightarrow> j < length a \<Longrightarrow> mset (swap_elems i j a) = mset a"
  by (simp add: swap_elems_def Let_def mset_swap)

lemma length_swap_elems [simp]: "length (swap_elems i j a) = length a"
  by (simp add: swap_elems_def Let_def)

lemma fold_swaps_inv:
  assumes "m \<le> length a" "\<forall>i. 1 \<le> i \<and> i < m \<longrightarrow> g i \<le> i"
  shows "length (fold (\<lambda>i a. swap_elems i (g i) a) [1..<m] a) = length a
       \<and> mset (fold (\<lambda>i a. swap_elems i (g i) a) [1..<m] a) = mset a
       \<and> (\<forall>p. m \<le> p \<longrightarrow> fold (\<lambda>i a. swap_elems i (g i) a) [1..<m] a ! p = a ! p)"
  using assms
proof (induction m)
  case 0
  then show ?case by simp
next
  case (Suc m)
  show ?case
  proof (cases "m = 0")
    case True
    then show ?thesis by simp
  next
    case False
    let ?b = "fold (\<lambda>i a. swap_elems i (g i) a) [1..<m] a"
    have ih: "length ?b = length a \<and> mset ?b = mset a \<and> (\<forall>p. m \<le> p \<longrightarrow> ?b ! p = a ! p)"
      using Suc by simp
    have up: "[1..<Suc m] = [1..<m] @ [m]" using False by simp
    have gm: "g m \<le> m" using Suc.prems False by simp
    have eq: "fold (\<lambda>i a. swap_elems i (g i) a) [1..<Suc m] a = swap_elems m (g m) ?b"
      unfolding up by simp
    have "mset (swap_elems m (g m) ?b) = mset a"
      using ih gm Suc.prems(1) by (simp add: mset_swap_elems)
    moreover have "\<forall>p. Suc m \<le> p \<longrightarrow> swap_elems m (g m) ?b ! p = a ! p"
      using ih gm by (auto simp: swap_elems_def Let_def)
    ultimately show ?thesis unfolding eq using ih by simp
  qed
qed

lemma shuffle_eq_shuffle_with:
  "shuffle rs a = shuffle_with (drawn_indices rs (length a)) a"
proof -
  have "shuffle_pass rs i b = swap_elems i (drawn_indices rs (length a) ! (i - 1)) b"
    if "i \<in> set [1..<length a]" for i and b :: "'a list"
  proof -
    from that have i: "1 \<le> i" "i < length a" by auto
    then have "i - 1 < length [1..<length a]" by simp
    then have "drawn_indices rs (length a) ! (i - 1) = drawn_index rs ([1..<length a] ! (i - 1))"
      unfolding drawn_indices_def by (rule nth_map)
    also have "[1..<length a] ! (i - 1) = i" using i by (simp add: nth_upt)
    finally show ?thesis
      by (simp add: shuffle_pass_def drawn_index_def Let_def)
  qed
  then show ?thesis unfolding shuffle_def shuffle_with_def
    by (intro fold_cong) auto
qed

lemma drawn_indices_in_tuples:
  assumes "valid_draws rs n"
  shows "drawn_indices rs n \<in> index_tuples n"
  using assms drawn_index_le[OF assms]
  by (auto simp: index_tuples_def drawn_indices_def)

lemma mset_shuffle_with:
  assumes "js \<in> index_tuples (length a)"
  shows "mset (shuffle_with js a) = mset a"
proof -
  have "\<forall>i. 1 \<le> i \<and> i < length a \<longrightarrow> js ! (i - 1) \<le> i"
  proof (intro allI impI)
    fix i assume "1 \<le> i \<and> i < length a"
    then have "i - 1 < length a - 1" by arith
    then have "js ! (i - 1) \<le> Suc (i - 1)" using assms by (simp add: index_tuples_def)
    then show "js ! (i - 1) \<le> i" using \<open>1 \<le> i \<and> i < length a\<close> by simp
  qed
  from fold_swaps_inv[of "length a" a "\<lambda>i. js ! (i - 1)", OF le_refl this]
  show ?thesis by (simp add: shuffle_with_def)
qed















lemma shuffle_short: "length array \<le> 1 \<Longrightarrow> shuffle rs array = array"
proof -
  assume "length array \<le> 1"
  then have "[1..<length array] = []" by simp
  then show ?thesis unfolding shuffle_def by (simp only: fold.simps id_apply)
qed

text \<open>
  Claim C10. For every array and every sequence of draws in \<open>[0, 1)\<close>, the index \<open>j\<close>
  drawn in pass \<open>i\<close> satisfies \<open>0 \<le> j \<le> i\<close> and lies inside the array, so every read and
  write of \<open>shuffle\<close> is in bounds; the array keeps its length and holds a permutation of
  its original elements; an array of length 0 or 1 is unchanged.
\<close>

theorem shuffle_stays_in_bounds:
  assumes "valid_draws rs (length array)"
  shows "(\<forall>i \<in> {1..<length array}.
            0 \<le> randomInt (rs ! (i - 1)) 0 (int i + 1)
          \<and> randomInt (rs ! (i - 1)) 0 (int i + 1) \<le> int i
          \<and> drawn_index rs i < length array)
       \<and> length (shuffle rs array) = length array
       \<and> mset (shuffle rs array) = mset array
       \<and> (length array \<le> 1 \<longrightarrow> shuffle rs array = array)"
proof -
  have 1: "0 \<le> randomInt (rs ! (i - 1)) 0 (int i + 1)
          \<and> randomInt (rs ! (i - 1)) 0 (int i + 1) \<le> int i
          \<and> drawn_index rs i < length array" if "i \<in> {1..<length array}" for i
  proof -
    from that have i: "1 \<le> i" "i < length array" by auto
    then have "i - 1 < length rs" using assms by (simp add: valid_draws_def)
    then have "rs ! (i - 1) \<in> set rs" by simp
    then have "0 \<le> rs ! (i - 1) \<and> rs ! (i - 1) < 1" using assms by (simp add: valid_draws_def)
    then have "0 \<le> randomInt (rs ! (i - 1)) 0 (int i + 1) \<and> randomInt (rs ! (i - 1)) 0 (int i + 1) \<le> int i"
      using randomInt_bounds by blast
    moreover have "drawn_index rs i \<le> i" using drawn_index_le[OF assms i] .
    ultimately show ?thesis using i by simp
  qed
  have js: "drawn_indices rs (length array) \<in> index_tuples (length array)"
    by (rule drawn_indices_in_tuples[OF assms])
  have 2: "mset (shuffle rs array) = mset array"
    unfolding shuffle_eq_shuffle_with by (rule mset_shuffle_with[OF js])
  have 3: "length (shuffle rs array) = length array" using mset_eq_length[OF 2] .
  show ?thesis using 1 2 3 shuffle_short[of array rs] by blast
qed

theorem shuffle_stays_in_bounds_witness:
  "valid_draws [1/2, 9/10, 1/10] (length [10, 20, 30, 40 :: nat])
   \<and> randomInt (9/10) 0 3 = 2
   \<and> mset (shuffle [1/2, 9/10, 1/10] [10, 20, 30, 40 :: nat]) = mset [10, 20, 30, 40]"
proof -
  have v: "valid_draws [1/2, 9/10, 1/10] (length [10, 20, 30, 40 :: nat])"
    by (simp add: valid_draws_def)
  have "randomInt (9/10) 0 3 = 2" by (simp add: randomInt_def)
  then show ?thesis using v shuffle_stays_in_bounds[OF v] by simp
qed



section \<open>Lemmas about the race loop of \<open>select\<close>\<close>


lemma mset_shuffle:
  assumes "valid_draws rs (length a)"
  shows "mset (shuffle rs a) = mset a"
  unfolding shuffle_eq_shuffle_with
  by (rule mset_shuffle_with[OF drawn_indices_in_tuples[OF assms]])

lemma set_shuffle: "valid_draws rs (length a) \<Longrightarrow> set (shuffle rs a) = set a"
  using mset_shuffle mset_eq_setD by blast

lemma start_ops_all_null:
  "\<forall>e \<in> set xs. snd e = None \<Longrightarrow> start_ops env c xs i st = Inr st"
proof (induction xs arbitrary: i)
  case Nil
  then show ?case by simp
next
  case (Cons x xs)
  obtain name op where x: "x = (name, op)" by (cases x)
  with Cons.prems have "op = None" by simp
  with Cons x show ?case by simp
qed

lemma waitForOp_trace:
  assumes "waitForOp env tr op name index c = (tr', r)" "\<forall>ev \<in> set tr. passes c ev"
  shows "\<forall>ev \<in> set tr'. passes c ev"
  using assms by (cases op) (auto simp: waitForOp_def Let_def)

lemma start_ops_trace:
  assumes "start_ops env c xs i st = Inr st'" "\<forall>ev \<in> set (trace st). passes c ev"
  shows "\<forall>ev \<in> set (trace st'). passes c ev"
  using assms
proof (induction env c xs i st rule: start_ops.induct)
  case (1 env c index st)
  then show ?case by simp
next
  case (2 env c name rest index st)
  then show ?case by simp
next
  case (3 env c name op rest index st)
  obtain tr r where w: "waitForOp env (trace st) op name index c = (tr, r)"
    by (cases "waitForOp env (trace st) op name index c")
  have tr: "\<forall>ev \<in> set tr. passes c ev" using waitForOp_trace[OF w "3.prems"(2)] .
  show ?case
  proof (cases r)
    case (Inl err)
    with w "3.prems"(1) show ?thesis by simp
  next
    case (Inr p)
    let ?st = "st\<lparr>promises := promises st @ [Slot p], trace := tr\<rparr>"
    have "start_ops env c rest (Suc index) ?st = Inr st'" using w Inr "3.prems"(1) by simp
    moreover have "\<forall>ev \<in> set (trace ?st). passes c ev" using tr by simp
    ultimately show ?thesis using "3.IH"[OF w[symmetric] Inr] by blast
  qed
qed

lemma race_slot:
  assumes "race ps k = Some (Fulfilled (Some r))"
  shows "\<exists>p. Slot p \<in> set ps \<and> fate p = Some (Fulfilled r)"
proof -
  have k: "k < length ps" using assms by (cases "k < length ps") (simp_all add: race_def)
  show ?thesis
  proof (cases "ps ! k")
    case Hole
    then show ?thesis using assms k by (simp add: race_def)
  next
    case (Slot p)
    then have "Slot p \<in> set ps" using k nth_mem[of k ps] by simp
    moreover have "fate p = Some (Fulfilled r)"
    proof (cases "fate p")
      case None
      then show ?thesis using assms k Slot by (simp add: race_def)
    next
      case (Some w)
      then show ?thesis using assms k Slot by (cases w) (simp_all add: race_def)
    qed
    ultimately show ?thesis by blast
  qed
qed

lemma set_array_assign: "set (array_assign ps i v) \<subseteq> insert Hole (insert (Slot v) (set ps))"
proof (cases "i < length ps")
  case True
  have "set (ps[i := Slot v]) \<subseteq> insert (Slot v) (set ps)" by (rule set_update_subset_insert)
  then show ?thesis using True unfolding array_assign_def by auto
next
  case False
  have "set (ps @ replicate (i - length ps) Hole @ [Slot v]) \<subseteq> insert Hole (insert (Slot v) (set ps))"
    by auto
  then show ?thesis using False unfolding array_assign_def by simp
qed

lemma slots_of_ops_assign:
  assumes "slots_of_ops c ops ps" "\<And>r. fate p = Some (Fulfilled r) \<Longrightarrow> result_of_ops c ops r"
  shows "slots_of_ops c ops (array_assign ps i p)"
  unfolding slots_of_ops_def
proof (intro allI impI)
  fix q r assume a: "Slot q \<in> set (array_assign ps i p) \<and> fate q = Some (Fulfilled r)"
  from a have m: "Slot q \<in> set (array_assign ps i p)" and f: "fate q = Some (Fulfilled r)"
    by simp_all
  have "Slot q \<in> insert Hole (insert (Slot p) (set ps))"
    by (rule subsetD[OF set_array_assign m])
  then have "q = p \<or> Slot q \<in> set ps" by simp
  then show "result_of_ops c ops r"
  proof
    assume "q = p"
    then have "fate p = Some (Fulfilled r)" using f by simp
    then show ?thesis by (rule assms(2))
  next
    assume "Slot q \<in> set ps"
    then have "Slot q \<in> set ps \<and> fate q = Some (Fulfilled r)" using f by simp
    moreover have "\<forall>p r. Slot p \<in> set ps \<and> fate p = Some (Fulfilled r) \<longrightarrow> result_of_ops c ops r"
      using assms(1) unfolding slots_of_ops_def .
    ultimately show ?thesis by blast
  qed
qed

lemma call_wait_fulfilled:
  assumes "call_wait env tr s w = Returns p" "fate (unwrapped p) = Some (Fulfilled r)"
  shows "r = w"
proof (cases "wait_behaviour env s (waits_so_far s tr)")
  case (Throws e)
  then show ?thesis using assms(1) by (simp add: call_wait_def)
next
  case (Returns q)
  show ?thesis
  proof (cases "fate q")
    case None
    then show ?thesis using assms Returns by (auto simp: call_wait_def unwrapped_def)
  next
    case (Some u)
    then show ?thesis using assms Returns by (cases u) (auto simp: call_wait_def unwrapped_def)
  qed
qed

text \<open>One pass of the loop, case by case.\<close>

lemma race_loop_Nil: "race_loop env c [] st = (st', out) \<Longrightarrow> st' = st \<and> out = StaysPending"
  by auto

lemma race_loop_pending:
  "race (promises st) k = None \<Longrightarrow> race_loop env c (k # schedule) st = (st, StaysPending)"
  by simp

lemma race_loop_rejected:
  "race (promises st) k = Some (Rejected err) \<Longrightarrow> race_loop env c (k # schedule) st = (st, RejectsWith err)"
  by simp

lemma race_loop_hole:
  "race (promises st) k = Some (Fulfilled None) \<Longrightarrow> race_loop env c (k # schedule) st = (st, RejectsWith TypeError)"
  by simp

lemma race_loop_promise:
  "race (promises st) k = Some (Fulfilled (Some (PromiseResult name v)))
     \<Longrightarrow> race_loop env c (k # schedule) st = (st, Resolves name v)"
  by simp

lemma race_loop_attempt_throws:
  "race (promises st) k = Some (Fulfilled (Some (SelectableResult name index self)))
     \<Longrightarrow> attempt_behaviour env self (attempts_so_far self (trace st)) = AttemptThrows e
     \<Longrightarrow> race_loop env c (k # schedule) st
           = (st\<lparr>trace := trace st @ [CalledAttempt self]\<rparr>, RejectsWith (SelectError name e))"
  by (simp add: Let_def)

lemma race_loop_attempt_ok:
  "race (promises st) k = Some (Fulfilled (Some (SelectableResult name index self)))
     \<Longrightarrow> attempt_behaviour env self (attempts_so_far self (trace st)) = Ok v
     \<Longrightarrow> race_loop env c (k # schedule) st
           = (st\<lparr>trace := trace st @ [CalledAttempt self]\<rparr>, Resolves name v)"
  by (simp add: Let_def)

lemma race_loop_rearm_throws:
  fixes st :: "('v, 'e) select_state"
  shows "race (promises st) k = Some (Fulfilled (Some (SelectableResult name index self)))
     \<Longrightarrow> attempt_behaviour env self (attempts_so_far self (trace st)) = NotOk
     \<Longrightarrow> call_wait env (trace st @ [CalledAttempt self]) self (SelectableResult name index self :: 'v wait_result) = Throws e
     \<Longrightarrow> race_loop env c (k # schedule) st
           = (st\<lparr>trace := trace st @ [CalledAttempt self, CalledWait self (SelectableResult name index self) c]\<rparr>,
              RejectsWith (Plain e))"
  by (simp add: Let_def)

lemma race_loop_rearm:
  fixes st :: "('v, 'e) select_state"
  shows "race (promises st) k = Some (Fulfilled (Some (SelectableResult name index self)))
     \<Longrightarrow> attempt_behaviour env self (attempts_so_far self (trace st)) = NotOk
     \<Longrightarrow> call_wait env (trace st @ [CalledAttempt self]) self (SelectableResult name index self :: 'v wait_result) = Returns p
     \<Longrightarrow> race_loop env c (k # schedule) st
           = race_loop env c schedule
               (st\<lparr>trace := trace st @ [CalledAttempt self, CalledWait self (SelectableResult name index self) c],
                   promises := array_assign (promises st) index (unwrapped p)\<rparr>)"
  by (simp add: Let_def)

lemma race_loop_Cons_elim:
  fixes st :: "('v, 'e) select_state"
  assumes "race_loop env c (k # schedule) st = (st', out)"
  obtains
    (pending) "race (promises st) k = None" "st' = st" "out = StaysPending"
  | (rejected) err where "race (promises st) k = Some (Rejected err)" "st' = st" "out = RejectsWith err"
  | (hole) "race (promises st) k = Some (Fulfilled None)" "st' = st" "out = RejectsWith TypeError"
  | (promise) name v where "race (promises st) k = Some (Fulfilled (Some (PromiseResult name v)))"
      "st' = st" "out = Resolves name v"
  | (attempt_throws) name index self e where
      "race (promises st) k = Some (Fulfilled (Some (SelectableResult name index self)))"
      "attempt_behaviour env self (attempts_so_far self (trace st)) = AttemptThrows e"
      "st' = st\<lparr>trace := trace st @ [CalledAttempt self]\<rparr>" "out = RejectsWith (SelectError name e)"
  | (attempt_ok) name index self v where
      "race (promises st) k = Some (Fulfilled (Some (SelectableResult name index self)))"
      "attempt_behaviour env self (attempts_so_far self (trace st)) = Ok v"
      "st' = st\<lparr>trace := trace st @ [CalledAttempt self]\<rparr>" "out = Resolves name v"
  | (rearm_throws) name index self e where
      "race (promises st) k = Some (Fulfilled (Some (SelectableResult name index self)))"
      "attempt_behaviour env self (attempts_so_far self (trace st)) = NotOk"
      "call_wait env (trace st @ [CalledAttempt self]) self (SelectableResult name index self :: 'v wait_result) = Throws e"
      "st' = st\<lparr>trace := trace st @ [CalledAttempt self, CalledWait self (SelectableResult name index self) c]\<rparr>"
      "out = RejectsWith (Plain e)"
  | (rearm) name index self p where
      "race (promises st) k = Some (Fulfilled (Some (SelectableResult name index self)))"
      "attempt_behaviour env self (attempts_so_far self (trace st)) = NotOk"
      "call_wait env (trace st @ [CalledAttempt self]) self (SelectableResult name index self :: 'v wait_result) = Returns p"
      "race_loop env c schedule
         (st\<lparr>trace := trace st @ [CalledAttempt self, CalledWait self (SelectableResult name index self) c],
             promises := array_assign (promises st) index (unwrapped p)\<rparr>) = (st', out)"
proof (cases "race (promises st) k")
  case None
  show ?thesis
          proof -
            note u = race_loop_pending[OF None, of env c schedule]
            have e: "race_loop env c (k # schedule) st = (st', out)" by (rule assms)
            show ?thesis by (rule pending[OF None]) (use e[unfolded u] in simp_all)
          qed
next
  case (Some w)
  show ?thesis
  proof (cases w)
    case (Rejected err)
    have r: "race (promises st) k = Some (Rejected err)" using Some Rejected by simp
    show ?thesis
          proof -
            note u = race_loop_rejected[OF r, of env c schedule]
            have e: "race_loop env c (k # schedule) st = (st', out)" by (rule assms)
            show ?thesis by (rule rejected[OF r]) (use e[unfolded u] in simp_all)
          qed
  next
    case (Fulfilled u)
    show ?thesis
    proof (cases u)
      case None
      have r: "race (promises st) k = Some (Fulfilled None)" using Some Fulfilled None by simp
      show ?thesis
          proof -
            note u = race_loop_hole[OF r, of env c schedule]
            have e: "race_loop env c (k # schedule) st = (st', out)" by (rule assms)
            show ?thesis by (rule hole[OF r]) (use e[unfolded u] in simp_all)
          qed
    next
      case (Some x)
      show ?thesis
      proof (cases x)
        case (PromiseResult name v)
        have r: "race (promises st) k = Some (Fulfilled (Some (PromiseResult name v)))"
          using \<open>race (promises st) k = Some w\<close> Fulfilled Some PromiseResult by simp
        show ?thesis
          proof -
            note u = race_loop_promise[OF r, of env c schedule]
            have e: "race_loop env c (k # schedule) st = (st', out)" by (rule assms)
            show ?thesis by (rule promise[OF r]) (use e[unfolded u] in simp_all)
          qed
      next
        case (SelectableResult name index self)
        have r: "race (promises st) k = Some (Fulfilled (Some (SelectableResult name index self)))"
          using \<open>race (promises st) k = Some w\<close> Fulfilled Some SelectableResult by simp
        show ?thesis
        proof (cases "attempt_behaviour env self (attempts_so_far self (trace st))")
          case (AttemptThrows e)
          show ?thesis
          proof -
            note u = race_loop_attempt_throws[OF r AttemptThrows, of c schedule]
            have e: "race_loop env c (k # schedule) st = (st', out)" by (rule assms)
            show ?thesis by (rule attempt_throws[OF r AttemptThrows]) (use e[unfolded u] in simp_all)
          qed
        next
          case (Ok v)
          show ?thesis
          proof -
            note u = race_loop_attempt_ok[OF r Ok, of c schedule]
            have e: "race_loop env c (k # schedule) st = (st', out)" by (rule assms)
            show ?thesis by (rule attempt_ok[OF r Ok]) (use e[unfolded u] in simp_all)
          qed
        next
          case NotOk
          show ?thesis
          proof (cases "call_wait env (trace st @ [CalledAttempt self]) self (SelectableResult name index self :: 'v wait_result)")
            case (Throws e)
            show ?thesis
          proof -
            note u = race_loop_rearm_throws[OF r NotOk Throws, of c schedule]
            have e: "race_loop env c (k # schedule) st = (st', out)" by (rule assms)
            show ?thesis by (rule rearm_throws[OF r NotOk Throws]) (use e[unfolded u] in simp_all)
          qed
          next
            case (Returns p)
            show ?thesis
          proof -
            note u = race_loop_rearm[OF r NotOk Returns, of c schedule]
            have e: "race_loop env c (k # schedule) st = (st', out)" by (rule assms)
            show ?thesis by (rule rearm[OF r NotOk Returns]) (use e[unfolded u] in simp_all)
          qed
          qed
        qed
      qed
    qed
  qed
qed

lemma race_loop_trace:
  fixes st :: "('v, 'e) select_state"
  shows "race_loop env c schedule st = (st', out) \<Longrightarrow> \<forall>ev \<in> set (trace st). passes c ev
     \<Longrightarrow> \<forall>ev \<in> set (trace st'). passes c ev"
proof (induction schedule arbitrary: st)
  case Nil
  then show ?case using race_loop_Nil[OF Nil.prems(1)] by simp
next
  case (Cons k schedule)
  from Cons.prems(1) show ?case
  proof (cases rule: race_loop_Cons_elim)
    case pending
    then show ?thesis using Cons.prems(2) by simp
  next
    case (rejected err)
    then show ?thesis using Cons.prems(2) by simp
  next
    case hole
    then show ?thesis using Cons.prems(2) by simp
  next
    case (promise name v)
    then show ?thesis using Cons.prems(2) by simp
  next
    case (attempt_throws name index self e)
    then show ?thesis using Cons.prems(2) by simp
  next
    case (attempt_ok name index self v)
    then show ?thesis using Cons.prems(2) by simp
  next
    case (rearm_throws name index self e)
    then show ?thesis using Cons.prems(2) by simp
  next
    case (rearm name index self p)
    show ?thesis
      by (rule Cons.IH[OF rearm(4)]) (use Cons.prems(2) in simp)
  qed
qed

lemma race_loop_resolves:
  fixes st :: "('v, 'e) select_state"
  shows "race_loop env c schedule st = (st', Resolves name v) \<Longrightarrow> slots_of_ops c ops (promises st)
     \<Longrightarrow> result_of_ops c ops (PromiseResult name v)
         \<or> (\<exists>s tr. (name, Some (SelectableOp s)) \<in> set ops \<and> trace st' = tr @ [CalledAttempt s]
                  \<and> attempt_behaviour env s (attempts_so_far s tr) = Ok v)"
proof (induction schedule arbitrary: st)
  case Nil
  then show ?case using race_loop_Nil[OF Nil.prems(1)] by simp
next
  case (Cons k schedule)
  from Cons.prems(1) show ?case
  proof (cases rule: race_loop_Cons_elim)
    case pending
    then show ?thesis by simp
  next
    case (rejected err)
    then show ?thesis by simp
  next
    case hole
    then show ?thesis by simp
  next
    case (promise name' v')
    obtain p where "Slot p \<in> set (promises st)" "fate p = Some (Fulfilled (PromiseResult name' v'))"
      using race_slot[OF promise(1)] by blast
    then have "result_of_ops c ops (PromiseResult name' v')"
      using Cons.prems(2) unfolding slots_of_ops_def by blast
    then show ?thesis using promise(3) by simp
  next
    case (attempt_throws name' index self e)
    then show ?thesis by simp
  next
    case (attempt_ok name' index self v')
    obtain p where "Slot p \<in> set (promises st)" "fate p = Some (Fulfilled (SelectableResult name' index self))"
      using race_slot[OF attempt_ok(1)] by blast
    then have "result_of_ops c ops (SelectableResult name' index self :: 'v wait_result)"
      using Cons.prems(2) unfolding slots_of_ops_def by blast
    then have "(name, Some (SelectableOp self)) \<in> set ops" using attempt_ok(4) by simp
    moreover have "trace st' = trace st @ [CalledAttempt self]" using attempt_ok(3) by simp
    moreover have "attempt_behaviour env self (attempts_so_far self (trace st)) = Ok v"
      using attempt_ok(2,4) by simp
    ultimately show ?thesis by blast
  next
    case (rearm_throws name' index self e)
    then show ?thesis by simp
  next
    case (rearm name' index self p)
    obtain q where "Slot q \<in> set (promises st)" "fate q = Some (Fulfilled (SelectableResult name' index self))"
      using race_slot[OF rearm(1)] by blast
    then have ok: "result_of_ops c ops (SelectableResult name' index self :: 'v wait_result)"
      using Cons.prems(2) unfolding slots_of_ops_def by blast
    have "slots_of_ops c ops (array_assign (promises st) index (unwrapped p))"
    proof (rule slots_of_ops_assign[OF Cons.prems(2)])
      fix r assume "fate (unwrapped p) = Some (Fulfilled r)"
      then have "r = SelectableResult name' index self" using call_wait_fulfilled[OF rearm(3)] by simp
      then show "result_of_ops c ops r" using ok by simp
    qed
    then show ?thesis using Cons.IH[OF rearm(4)] by simp
  qed
qed

lemma then_p_fulfilled:
  assumes "fate (then_p (\<lambda>value. Fulfilled (g value)) (\<lambda>error. Rejected (h error)) q) = Some (Fulfilled r)"
  shows "\<exists>v. fate q = Some (Fulfilled v) \<and> r = g v"
proof (cases "fate q")
  case None
  then show ?thesis using assms by (simp add: then_p_def)
next
  case (Some w)
  then show ?thesis using assms by (cases w) (simp_all add: then_p_def)
qed

lemma catch_p_fulfilled:
  assumes "fate (catch_p (\<lambda>error. Rejected (h error)) q) = Some (Fulfilled r)"
  shows "fate q = Some (Fulfilled r)"
proof (cases "fate q")
  case None
  then show ?thesis using assms by (simp add: catch_p_def then_p_def)
next
  case (Some w)
  then show ?thesis using assms by (cases w) (simp_all add: catch_p_def then_p_def)
qed

lemma call_wait_returns_fulfilled:
  assumes "call_wait env tr s w = Returns p" "fate p = Some (Fulfilled r)"
  shows "r = w"
proof (cases "wait_behaviour env s (waits_so_far s tr)")
  case (Throws e)
  then show ?thesis using assms(1) by (simp add: call_wait_def)
next
  case (Returns q)
  show ?thesis
  proof (cases "fate q")
    case None
    then show ?thesis using assms Returns by (auto simp: call_wait_def)
  next
    case (Some u)
    then show ?thesis using assms Returns by (cases u) (auto simp: call_wait_def)
  qed
qed

lemma waitForOp_result:
  fixes p :: "('v wait_result, 'e thrown) promise"
  assumes "waitForOp env tr op name index c = (tr', Inr p)" "(name, Some op) \<in> set ops"
    "fate p = Some (Fulfilled r)"
  shows "result_of_ops c ops r"
proof (cases op)
  case (SelectableOp s)
  let ?w = "SelectableResult name index s :: 'v wait_result"
  obtain q where q: "call_wait env tr s ?w = Returns q"
    and p: "p = catch_p (\<lambda>error. Rejected (SelectError name error)) q"
    using assms(1) SelectableOp
    by (cases "call_wait env tr s ?w") (simp_all add: waitForOp_def Let_def)
  have "fate q = Some (Fulfilled r)" using assms(3) unfolding p by (rule catch_p_fulfilled)
  then have "r = ?w" using call_wait_returns_fulfilled[OF q] by simp
  then show ?thesis using assms(2) SelectableOp by simp
next
  case (PromiseOp q)
  have p: "p = then_p (\<lambda>value. Fulfilled (PromiseResult name value)) (\<lambda>error. Rejected (SelectError name error)) q"
    using assms(1) PromiseOp by (simp add: waitForOp_def)
  obtain v where "fate q = Some (Fulfilled v)" "r = PromiseResult name v"
    using then_p_fulfilled[OF assms(3)[unfolded p]] by blast
  then show ?thesis using assms(2) PromiseOp by auto
next
  case (FunctionOp f)
  obtain q where q: "f c = Returns q"
    and p: "p = then_p (\<lambda>value. Fulfilled (PromiseResult name value)) (\<lambda>error. Rejected (SelectError name error)) q"
    using assms(1) FunctionOp by (cases "f c") (simp_all add: waitForOp_def)
  obtain v where "fate q = Some (Fulfilled v)" "r = PromiseResult name v"
    using then_p_fulfilled[OF assms(3)[unfolded p]] by blast
  then show ?thesis using assms(2) FunctionOp q by auto
qed

lemma start_ops_slots:
  assumes "start_ops env c xs i st = Inr st'" "set xs \<subseteq> set ops" "slots_of_ops c ops (promises st)"
  shows "slots_of_ops c ops (promises st')"
  using assms
proof (induction env c xs i st rule: start_ops.induct)
  case (1 env c index st)
  then show ?case by simp
next
  case (2 env c name rest index st)
  then show ?case by simp
next
  case (3 env c name op rest index st)
  obtain tr r where w: "waitForOp env (trace st) op name index c = (tr, r)"
    by (cases "waitForOp env (trace st) op name index c")
  show ?case
  proof (cases r)
    case (Inl err)
    with w "3.prems"(1) show ?thesis by simp
  next
    case (Inr p)
    let ?st = "st\<lparr>promises := promises st @ [Slot p], trace := tr\<rparr>"
    have a: "start_ops env c rest (Suc index) ?st = Inr st'" using w Inr "3.prems"(1) by simp
    have m: "(name, Some op) \<in> set ops" using "3.prems"(2) by simp
    have "slots_of_ops c ops (promises st @ [Slot p])"
      unfolding slots_of_ops_def
    proof (intro allI impI)
      fix q r' assume h: "Slot q \<in> set (promises st @ [Slot p]) \<and> fate q = Some (Fulfilled r')"
      then have "q = p \<or> Slot q \<in> set (promises st)" by auto
      then show "result_of_ops c ops r'"
      proof
        assume "q = p"
        then show ?thesis using waitForOp_result[OF w[unfolded Inr] m] h by simp
      next
        assume "Slot q \<in> set (promises st)"
        then show ?thesis using "3.prems"(3) h unfolding slots_of_ops_def by blast
      qed
    qed
    then have b: "slots_of_ops c ops (promises ?st)" by simp
    have s: "set rest \<subseteq> set ops" using "3.prems"(2) by simp
    show ?thesis by (rule "3.IH"[OF w[symmetric] Inr a s b])
  qed
qed

section \<open>Properties of \<open>select\<close>\<close>

lemma finally_abort_exit:
  assumes "finally_abort c (st', out') = (st, out)" "out \<noteq> StaysPending"
  shows "trace st = trace st' @ [Aborted c] \<and> out = out'"
  using assms by (cases out') (auto simp: finally_abort_def)

lemmas select_eval = select_def shuffle_def shuffle_pass_def randomInt_def swap_elems_def
  upt_rec initial_state_def waitForOp_def call_wait_def finally_abort_def race_def
  array_assign_def then_p_def catch_p_def unwrapped_def waits_so_far_def attempts_so_far_def Let_def

text \<open>
  Claim C6. When every entry of the operations map is \<open>null\<close> (the empty map included),
  \<open>select\<close> fails with the error for a call without operations, whatever the shuffle
  and the scheduling: no function and no \<open>wait\<close> was called (the trace is empty), no
  promise was raced, and the error is not a \<open>SelectError\<close>. The source throws it as a
  plain \<open>Error\<close> with the message "select() requires at least one non-null operation".
\<close>

theorem select_without_operations:
  assumes "valid_draws rs (length ops)" "\<forall>(name, op) \<in> set ops. op = None"
  shows "select env c rs schedule ops = (\<lparr>promises = [], trace = []\<rparr>, RejectsWith NoOperationsError)"
proof -
  have "set (shuffle rs ops) = set ops" by (rule set_shuffle[OF assms(1)])
  then have "\<forall>e \<in> set (shuffle rs ops). snd e = None" using assms(2) by auto
  then have "start_ops env c (shuffle rs ops) 0 initial_state = Inr initial_state"
    by (rule start_ops_all_null)
  then show ?thesis by (simp add: select_def initial_state_def)
qed

theorem select_without_operations_witness:
  "select ready_selectables 7 [1/2] [0] [(''a'', None), (''b'', None)]
     = (\<lparr>promises = [], trace = []\<rparr>, RejectsWith NoOperationsError)"
proof -
  have v: "valid_draws [1/2] (length [(''a'', None :: (nat, string) select_op option), (''b'', None)])"
    by (simp add: valid_draws_def)
  have n: "\<forall>(name, op) \<in> set [(''a'', None :: (nat, string) select_op option), (''b'', None)]. op = None"
    by simp
  show ?thesis by (rule select_without_operations[OF v n])
qed

text \<open>
  Claim C3, as amended. Once \<open>select\<close> has started its operations and entered the \<open>try\<close>
  block, every way out of it (a winner's value, an operation's failure, an exception thrown
  inside the loop) runs \<open>c.abort()\<close> as the last event before the result or error is
  handed to the caller; the signal is aborted exactly once, and every earlier call of an
  abortable function or of a \<open>wait\<close> was given that signal \<open>c\<close>.
\<close>

theorem select_aborts_on_exit_from_race:
  assumes "start_ops env c (shuffle rs ops) 0 initial_state = Inr st0" "promises st0 \<noteq> []"
    and "select env c rs schedule ops = (st, out)" "out \<noteq> StaysPending"
  shows "\<exists>tr. trace st = tr @ [Aborted c] \<and> (\<forall>ev \<in> set tr. passes c ev)"
proof -
  obtain st' out' where l: "race_loop env c schedule st0 = (st', out')"
    by (cases "race_loop env c schedule st0")
  have f: "finally_abort c (st', out') = (st, out)"
    using assms(1,2,3) l by (simp add: select_def)
  have "\<forall>ev \<in> set (trace st0). passes c ev"
    by (rule start_ops_trace[OF assms(1)]) (simp add: initial_state_def)
  then have "\<forall>ev \<in> set (trace st'). passes c ev" by (rule race_loop_trace[OF l])
  moreover have "trace st = trace st' @ [Aborted c]" using finally_abort_exit[OF f assms(4)] by simp
  ultimately show ?thesis by blast
qed

theorem select_aborts_on_exit_from_race_witness:
  "start_ops ready_selectables 7 (shuffle [] [(''ch'', Some (SelectableOp 0))]) 0 initial_state
     = Inr \<lparr>promises = [Slot (Promise 1 (Some (Fulfilled (SelectableResult ''ch'' 0 0))))],
            trace = [CalledWait 0 (SelectableResult ''ch'' 0 0) 7]\<rparr>
   \<and> select ready_selectables 7 [] [0] [(''ch'', Some (SelectableOp 0))]
     = (\<lparr>promises = [Slot (Promise 1 (Some (Fulfilled (SelectableResult ''ch'' 0 0))))],
         trace = [CalledWait 0 (SelectableResult ''ch'' 0 0) 7, CalledAttempt 0, Aborted 7]\<rparr>,
        Resolves ''ch'' 42)
   \<and> (\<exists>tr. trace (\<lparr>promises = [Slot (Promise 1 (Some (Fulfilled (SelectableResult ''ch'' 0 0))))],
         trace = [CalledWait 0 (SelectableResult ''ch'' 0 0) 7, CalledAttempt 0, Aborted 7]\<rparr>
         :: (nat, string) select_state) = tr @ [Aborted 7]
           \<and> (\<forall>ev \<in> set tr. passes 7 ev))"
proof -
  let ?begun = "\<lparr>promises = [Slot (Promise 1 (Some (Fulfilled (SelectableResult ''ch'' 0 0))))],
            trace = [CalledWait 0 (SelectableResult ''ch'' 0 0) 7]\<rparr> :: (nat, string) select_state"
  let ?st = "\<lparr>promises = [Slot (Promise 1 (Some (Fulfilled (SelectableResult ''ch'' 0 0))))],
         trace = [CalledWait 0 (SelectableResult ''ch'' 0 0) 7, CalledAttempt 0, Aborted 7]\<rparr>
         :: (nat, string) select_state"
  have a: "start_ops ready_selectables 7 (shuffle [] [(''ch'', Some (SelectableOp 0))]) 0 initial_state = Inr ?begun"
    by (simp add: select_eval ready_selectables_def)
  have b: "promises ?begun \<noteq> []" by simp
  have c: "select ready_selectables 7 [] [0] [(''ch'', Some (SelectableOp 0))] = (?st, Resolves ''ch'' 42)"
    by (simp add: select_eval ready_selectables_def)
  have d: "(Resolves ''ch'' 42 :: (nat, string) outcome) \<noteq> StaysPending" by simp
  have e: "\<exists>tr. trace ?st = tr @ [Aborted 7] \<and> (\<forall>ev \<in> set tr. passes 7 ev)"
    by (rule select_aborts_on_exit_from_race[OF a b c d])
  show ?thesis by (intro conjI) (rule a, rule c, rule e)
qed

text \<open>
  The claim as stated also covers the exit taken when no operation is given. There the
  error is thrown before the \<open>try\<close> block, and the signal is never aborted.
\<close>

theorem select_no_abort_without_operations:
  "snd (select ready_selectables 7 [1/2] [0] [(''a'', None), (''b'', None)])
     = RejectsWith NoOperationsError
   \<and> Aborted 7 \<notin> set (trace (fst (select ready_selectables 7 [1/2] [0] [(''a'', None), (''b'', None)])))"
  by (simp add: select_eval ready_selectables_def)

text \<open>
  An operation that throws while the operations are being started leaves \<open>select\<close>
  before the \<open>try\<close> block as well: here the \<open>wait\<close> of \<open>a\<close> has been started, the
  function \<open>b\<close> throws, and the error surfaces as it is, with no abort after it.
\<close>

lemma select_startup_throw:
  "select stolen_selectables 7 [1/2] []
     [(''a'', Some (SelectableOp 1)), (''b'', Some (FunctionOp (\<lambda>signal. Throws ''boom'')))]
   = (\<lparr>promises = [Slot (Promise 1 None)],
       trace = [CalledWait 1 (SelectableResult ''a'' 0 1) 7, CalledFunction ''b'' 7]\<rparr>,
      RejectsWith (Plain ''boom''))"
  by (simp add: select_eval stolen_selectables_def)

text \<open>
  Claim C5. Whenever \<open>select\<close> resolves with \<open>{type: name, value: v}\<close>, the caller's map has
  an entry under \<open>name\<close> that produced \<open>v\<close>: a promise fulfilled with \<open>v\<close>, an abortable
  function whose promise (for the signal of this call) is fulfilled with \<open>v\<close>, or a
  Selectable whose \<open>attempt\<close>, the last call before the abort, returned \<open>{ok: true, value: v}\<close>.
\<close>

theorem select_result_belongs_to_winner:
  assumes "valid_draws rs (length ops)" "select env c rs schedule ops = (st, Resolves name v)"
  shows "(\<exists>p. (name, Some (PromiseOp p)) \<in> set ops \<and> fate p = Some (Fulfilled v))
       \<or> (\<exists>f p. (name, Some (FunctionOp f)) \<in> set ops \<and> f c = Returns p \<and> fate p = Some (Fulfilled v))
       \<or> (\<exists>s tr. (name, Some (SelectableOp s)) \<in> set ops
               \<and> trace st = tr @ [CalledAttempt s, Aborted c]
               \<and> attempt_behaviour env s (attempts_so_far s tr) = Ok v)"
proof (cases "start_ops env c (shuffle rs ops) 0 initial_state")
  case (Inl a)
  then show ?thesis using assms(2) by (cases a) (simp add: select_def)
next
  case (Inr st0)
  have ne: "promises st0 \<noteq> []" using assms(2) Inr by (auto simp: select_def split: if_splits)
  obtain st' out' where l: "race_loop env c schedule st0 = (st', out')"
    by (cases "race_loop env c schedule st0")
  have f: "finally_abort c (st', out') = (st, Resolves name v)"
    using assms(2) Inr ne l by (simp add: select_def)
  have x: "trace st = trace st' @ [Aborted c]" "out' = Resolves name v"
    using finally_abort_exit[OF f] by simp_all
  have "set (shuffle rs ops) \<subseteq> set ops" using set_shuffle[OF assms(1)] by simp
  then have "slots_of_ops c ops (promises st0)"
    by (rule start_ops_slots[OF Inr]) (simp add: slots_of_ops_def initial_state_def)
  then have "result_of_ops c ops (PromiseResult name v)
         \<or> (\<exists>s tr. (name, Some (SelectableOp s)) \<in> set ops \<and> trace st' = tr @ [CalledAttempt s]
                  \<and> attempt_behaviour env s (attempts_so_far s tr) = Ok v)"
    by (rule race_loop_resolves[OF l[unfolded x(2)]])
  then show ?thesis
  proof
    assume "result_of_ops c ops (PromiseResult name v)"
    then have "(\<exists>p. (name, Some (PromiseOp p)) \<in> set ops \<and> fate p = Some (Fulfilled v))
       \<or> (\<exists>f p. (name, Some (FunctionOp f)) \<in> set ops \<and> f c = Returns p \<and> fate p = Some (Fulfilled v))"
      by simp
    then show ?thesis by blast
  next
    assume "\<exists>s tr. (name, Some (SelectableOp s)) \<in> set ops \<and> trace st' = tr @ [CalledAttempt s]
                  \<and> attempt_behaviour env s (attempts_so_far s tr) = Ok v"
    then obtain s tr where "(name, Some (SelectableOp s)) \<in> set ops" "trace st' = tr @ [CalledAttempt s]"
      "attempt_behaviour env s (attempts_so_far s tr) = Ok v" by blast
    then have "(name, Some (SelectableOp s)) \<in> set ops \<and> trace st = tr @ [CalledAttempt s, Aborted c]
               \<and> attempt_behaviour env s (attempts_so_far s tr) = Ok v" using x(1) by simp
    then show ?thesis by blast
  qed
qed

theorem select_result_belongs_to_winner_witness:
  "select ready_selectables 7 [] [0] [(''ch'', Some (SelectableOp 0))]
     = (\<lparr>promises = [Slot (Promise 1 (Some (Fulfilled (SelectableResult ''ch'' 0 0))))],
         trace = [CalledWait 0 (SelectableResult ''ch'' 0 0) 7, CalledAttempt 0, Aborted 7]\<rparr>,
        Resolves ''ch'' 42)
   \<and> ((\<exists>p. (''ch'', Some (PromiseOp p)) \<in> set [(''ch'', Some (SelectableOp 0 :: (nat, string) select_op))]
             \<and> fate p = Some (Fulfilled 42))
       \<or> (\<exists>f p. (''ch'', Some (FunctionOp f)) \<in> set [(''ch'', Some (SelectableOp 0 :: (nat, string) select_op))]
             \<and> f 7 = Returns p \<and> fate p = Some (Fulfilled 42))
       \<or> (\<exists>s tr. (''ch'', Some (SelectableOp s)) \<in> set [(''ch'', Some (SelectableOp 0 :: (nat, string) select_op))]
               \<and> [CalledWait 0 (SelectableResult ''ch'' 0 0) 7, CalledAttempt 0, Aborted 7]
                    = tr @ [CalledAttempt s, Aborted 7 :: nat event]
               \<and> attempt_behaviour ready_selectables s (attempts_so_far s tr) = Ok 42))"
proof -
  let ?ops = "[(''ch'', Some (SelectableOp 0 :: (nat, string) select_op))]"
  let ?st = "\<lparr>promises = [Slot (Promise 1 (Some (Fulfilled (SelectableResult ''ch'' 0 0))))],
         trace = [CalledWait 0 (SelectableResult ''ch'' 0 0) 7, CalledAttempt 0, Aborted 7]\<rparr>
         :: (nat, string) select_state"
  have v: "valid_draws [] (length ?ops)" by (simp add: valid_draws_def)
  have c: "select ready_selectables 7 [] [0] ?ops = (?st, Resolves ''ch'' 42)"
    by (simp add: select_eval ready_selectables_def)
  show ?thesis using c select_result_belongs_to_winner[OF v c] by simp
qed



text \<open>
  Claim C1 at the map \<open>{a: null, b: S0, c: S1}\<close>, left in this order by the shuffle. The
  promises of \<open>b\<close> and \<open>c\<close> are pushed to slots 0 and 1, while their entries have the
  indices 1 and 2. The \<open>wait\<close> of \<open>b\<close> resolves and its \<open>attempt\<close> returns \<open>{ok: false}\<close>:
  \<open>promises[winner.index]\<close> is slot 1, so the new \<open>wait\<close> of \<open>b\<close> replaces the pending
  promise of \<open>c\<close>, and the settled promise of \<open>b\<close> stays in slot 0 of the raced array.
\<close>

theorem select_rearm_uses_entry_index:
  "select stolen_selectables 7 [1/2, 3/4] [0]
     [(''a'', None), (''b'', Some (SelectableOp 0)), (''c'', Some (SelectableOp 1))]
   = (\<lparr>promises = [Slot (Promise 1 (Some (Fulfilled (SelectableResult ''b'' 1 0)))),
                    Slot (Promise 0 None)],
       trace = [CalledWait 0 (SelectableResult ''b'' 1 0) 7,
                CalledWait 1 (SelectableResult ''c'' 2 1) 7,
                CalledAttempt 0,
                CalledWait 0 (SelectableResult ''b'' 1 0) 7]\<rparr>,
      StaysPending)"
  by (simp add: select_eval stolen_selectables_def)

text \<open>
  Claim C2 at the map \<open>{ch: S}\<close> where the first \<open>wait\<close> of \<open>S\<close> resolves, its \<open>attempt\<close>
  returns \<open>{ok: false}\<close> and the second \<open>wait\<close> rejects with \<open>closed\<close>: the promise of the
  second \<open>wait\<close> is raced as it is, and \<open>select\<close> rejects with \<open>closed\<close> itself, not with
  a \<open>SelectError\<close> naming \<open>ch\<close>.
\<close>

theorem select_rearmed_wait_rejects_unwrapped:
  "select closing_selectables 7 [] [0, 0] [(''ch'', Some (SelectableOp 0))]
   = (\<lparr>promises = [Slot (Promise 0 (Some (Rejected (Plain ''closed''))))],
       trace = [CalledWait 0 (SelectableResult ''ch'' 0 0) 7,
                CalledAttempt 0,
                CalledWait 0 (SelectableResult ''ch'' 0 0) 7,
                Aborted 7]\<rparr>,
      RejectsWith (Plain ''closed''))"
  by (simp add: select_eval closing_selectables_def)

section \<open>The round trip through a buffered channel\<close>

text \<open>
  Claim C8. On an empty open channel of capacity at least 1, \<open>write(v)\<close> resolves with
  \<open>v\<close> placed in the buffer, and the \<open>read()\<close> that follows returns exactly \<open>v\<close> and
  leaves the buffer empty again.
\<close>

theorem channel_round_trip:
  assumes "1 \<le> capacity ch" "empty_channel ch"
  shows "channel_write v w ch
           = (ch\<lparr>buffer := [v], readableWaiters := []\<rparr>, WriteResolves,
              map ReadableResolves (readableWaiters ch))
       \<and> channel_read r (fst (channel_write v w ch))
           = (ch\<lparr>buffer := [], readableWaiters := []\<rparr>, ReadReturns v, [])"
proof -
  have e: "\<not> closed ch" "buffer ch = []" "pendingWrites ch = []" "pendingReads ch = []"
    using assms(2) by (simp_all add: empty_channel_def)
  have w: "channel_write v w ch
           = (ch\<lparr>buffer := [v], readableWaiters := []\<rparr>, WriteResolves,
              map ReadableResolves (readableWaiters ch))"
    using e assms(1) by (simp add: channel_write_def)
  have "channel_read r (ch\<lparr>buffer := [v], readableWaiters := []\<rparr>)
           = (ch\<lparr>buffer := [], readableWaiters := []\<rparr>, ReadReturns v, [])"
    using e by (simp add: channel_read_def admit_writer_def)
  then show ?thesis using w by simp
qed

theorem channel_round_trip_witness:
  "channel_write (42::nat) 0 (new_channel 1)
     = (\<lparr>capacity = 1, buffer = [42], closed = False, pendingWrites = [], pendingReads = [],
         readableWaiters = [], writableWaiters = []\<rparr>, WriteResolves, [])
   \<and> channel_read 1 (fst (channel_write (42::nat) 0 (new_channel 1)))
     = (new_channel 1, ReadReturns 42, [])"
proof -
  have c: "1 \<le> capacity (new_channel 1 :: nat channel)" by (simp add: new_channel_def)
  have e: "empty_channel (new_channel 1 :: nat channel)"
    by (simp add: new_channel_def empty_channel_def)
  note t = channel_round_trip[OF c e, of 42 0 1]
  show ?thesis using t[THEN conjunct1] t[THEN conjunct2] by (simp add: new_channel_def)
qed

section \<open>Cancelling \<open>sleep\<close>\<close>









end
